theory Spec2Isabelle
  imports
    Complex_Main
    "HOL-Library.Char_ord"
    "HOL-Library.List_Lexorder"
    "HOL-Library.Option_ord"
    "HOL-Library.Product_Lexorder"
begin

section \<open>Opponent state inference: elixir tracker and card cycle tracker\<close>

text \<open>
  A shallow embedding of \<^verbatim>\<open>croverlay/elixir_tracker.py\<close> and
  \<^verbatim>\<open>croverlay/cycle_tracker.py\<close>.

  Numbers. Python's \<^verbatim>\<open>float\<close> is modelled by \<^typ>\<open>real\<close>: the arithmetic
  of the model is exact, IEEE rounding, infinities and NaN are not represented. Every
  comparison, \<^verbatim>\<open>min\<close> and \<^verbatim>\<open>max\<close> of the source is exact on floats as well;
  the sums, differences and quotients are exact only in the model.

  Errors. The one operation of the two classes that can raise is the float division in
  \<^verbatim>\<open>update_time\<close> (\<^verbatim>\<open>ZeroDivisionError\<close> when the rate of the phase is zero);
  it is a branch of the model.

  Strings. Card names and the phase are values of \<^typ>\<open>string\<close>, ordered
  lexicographically by character code, which is how Python compares \<^verbatim>\<open>str\<close> values.
\<close>

subsection \<open>ElixirTracker\<close>

datatype py_error = ZeroDivisionError

record ElixirTracker =
  single_seconds_per_elixir :: real
  double_seconds_per_elixir :: real
  triple_seconds_per_elixir :: real
  max_elixir :: real
  current_elixir :: real
  last_update_timestamp :: "real option"
  phase :: string

text \<open>\<^verbatim>\<open>__init__\<close>: the four parameters are stored, the state starts at
  \<^verbatim>\<open>0.0\<close>, \<^verbatim>\<open>None\<close>, \<^verbatim>\<open>"single"\<close>.\<close>

definition init_ElixirTracker :: "real \<Rightarrow> real \<Rightarrow> real \<Rightarrow> real \<Rightarrow> ElixirTracker" where
  "init_ElixirTracker single double triple mx =
     \<lparr> single_seconds_per_elixir = single,
       double_seconds_per_elixir = double,
       triple_seconds_per_elixir = triple,
       max_elixir = mx,
       current_elixir = 0,
       last_update_timestamp = None,
       phase = ''single'' \<rparr>"

text \<open>The constructor's default arguments.\<close>

definition default_ElixirTracker :: ElixirTracker where
  "default_ElixirTracker = init_ElixirTracker 2.8 1.4 0.9 10"

text \<open>The \<^verbatim>\<open>if/elif/else\<close> chain of \<^verbatim>\<open>update_time\<close> that picks the rate.\<close>

definition seconds_per_elixir :: "ElixirTracker \<Rightarrow> real" where
  "seconds_per_elixir s =
     (if phase s = ''single'' then single_seconds_per_elixir s
      else if phase s = ''double'' then double_seconds_per_elixir s
      else if phase s = ''triple'' then triple_seconds_per_elixir s
      else single_seconds_per_elixir s)"

definition update_time :: "real \<Rightarrow> ElixirTracker \<Rightarrow> py_error + ElixirTracker" where
  "update_time now_seconds s =
     (case last_update_timestamp s of
        None \<Rightarrow> Inr (s\<lparr>last_update_timestamp := Some now_seconds\<rparr>)
      | Some prev \<Rightarrow>
          (let delta_t = now_seconds - prev;
               spe = seconds_per_elixir s
           in if spe = 0 then Inl ZeroDivisionError
              else
                (let elixir_gain = delta_t / spe
                 in Inr (s\<lparr>current_elixir := min (current_elixir s + elixir_gain) (max_elixir s),
                           last_update_timestamp := Some now_seconds\<rparr>))))"

definition spend :: "real \<Rightarrow> ElixirTracker \<Rightarrow> ElixirTracker" where
  "spend cost s = s\<lparr>current_elixir := max 0 (current_elixir s - cost)\<rparr>"

definition set_single_elixir :: "ElixirTracker \<Rightarrow> ElixirTracker" where
  "set_single_elixir s = s\<lparr>phase := ''single''\<rparr>"

definition set_double_elixir :: "ElixirTracker \<Rightarrow> ElixirTracker" where
  "set_double_elixir s = s\<lparr>phase := ''double''\<rparr>"

definition set_triple_elixir :: "ElixirTracker \<Rightarrow> ElixirTracker" where
  "set_triple_elixir s = s\<lparr>phase := ''triple''\<rparr>"

definition adjust :: "real \<Rightarrow> ElixirTracker \<Rightarrow> ElixirTracker" where
  "adjust delta s =
     s\<lparr>current_elixir := max 0 (min (current_elixir s + delta) (max_elixir s))\<rparr>"

text \<open>A call of one of the six methods, and a sequence of calls run in order; the run
  stops at the first exception.\<close>

datatype elixir_call =
    UpdateTime real
  | Spend real
  | Adjust real
  | SetSingle
  | SetDouble
  | SetTriple

fun call :: "elixir_call \<Rightarrow> ElixirTracker \<Rightarrow> py_error + ElixirTracker" where
  "call (UpdateTime now_seconds) s = update_time now_seconds s"
| "call (Spend cost) s = Inr (spend cost s)"
| "call (Adjust delta) s = Inr (adjust delta s)"
| "call SetSingle s = Inr (set_single_elixir s)"
| "call SetDouble s = Inr (set_double_elixir s)"
| "call SetTriple s = Inr (set_triple_elixir s)"

fun calls :: "elixir_call list \<Rightarrow> ElixirTracker \<Rightarrow> py_error + ElixirTracker" where
  "calls [] s = Inr s"
| "calls (c # cs) s = (case call c s of Inl e \<Rightarrow> Inl e | Inr s' \<Rightarrow> calls cs s')"

text \<open>The invariant of the elixir state.\<close>

definition elixir_in_range :: "ElixirTracker \<Rightarrow> bool" where
  "elixir_in_range s \<longleftrightarrow> 0 \<le> current_elixir s \<and> current_elixir s \<le> max_elixir s"

text \<open>The configuration the caller is documented to supply: positive rates and a
  non-negative cap.\<close>

definition config_ok :: "ElixirTracker \<Rightarrow> bool" where
  "config_ok s \<longleftrightarrow>
     0 < single_seconds_per_elixir s \<and> 0 < double_seconds_per_elixir s \<and>
     0 < triple_seconds_per_elixir s \<and> 0 \<le> max_elixir s"

text \<open>The documented preconditions on the arguments of a sequence of calls: the
  timestamps passed to \<^verbatim>\<open>update_time\<close> never decrease (\<open>prev\<close> is the timestamp of
  the latest earlier call, if any) and the costs passed to \<^verbatim>\<open>spend\<close> are not
  negative.\<close>

fun well_formed :: "real option \<Rightarrow> elixir_call list \<Rightarrow> bool" where
  "well_formed prev [] = True"
| "well_formed prev (UpdateTime now_seconds # cs) =
     ((case prev of None \<Rightarrow> True | Some t \<Rightarrow> t \<le> now_seconds) \<and>
      well_formed (Some now_seconds) cs)"
| "well_formed prev (Spend cost # cs) = (0 \<le> cost \<and> well_formed prev cs)"
| "well_formed prev (c # cs) = well_formed prev cs"

subsection \<open>CardCycleTracker\<close>

record CardPlay =
  card_name :: string
  is_evolved :: bool
  timestamp :: real

record CardCycleTracker =
  discovered_cards :: "string set"
  play_history :: "CardPlay list"

definition init_CardCycleTracker :: CardCycleTracker where
  "init_CardCycleTracker = \<lparr> discovered_cards = {}, play_history = [] \<rparr>"

definition record_play :: "string \<Rightarrow> bool \<Rightarrow> real \<Rightarrow> CardCycleTracker \<Rightarrow> CardCycleTracker" where
  "record_play name evolved t s =
     (let s1 = s\<lparr>play_history :=
                  play_history s @ [\<lparr>card_name = name, is_evolved = evolved, timestamp = t\<rparr>]\<rparr>
      in if name \<notin> discovered_cards s1
         then s1\<lparr>discovered_cards := insert name (discovered_cards s1)\<rparr>
         else s1)"

text \<open>
  Iterating a Python \<^verbatim>\<open>set\<close> of strings visits every element once, in an order the
  language does not fix (it follows the hash values, which change from one interpreter
  run to the next). The queries that iterate \<^verbatim>\<open>self.discovered_cards\<close> therefore take
  the enumeration as a parameter \<open>iter\<close>: \<open>iter S\<close> is the list that
  \<^verbatim>\<open>list(S)\<close> produces. All that is known of it is \<open>iterates iter S\<close>.
\<close>

definition iterates :: "(string set \<Rightarrow> string list) \<Rightarrow> string set \<Rightarrow> bool" where
  "iterates iter S \<longleftrightarrow> distinct (iter S) \<and> set (iter S) = S"

text \<open>\<^verbatim>\<open>sorted(list(self.discovered_cards))\<close>: strings compare by code point,
  lexicographically.\<close>

definition get_discovered_deck :: "(string set \<Rightarrow> string list) \<Rightarrow> CardCycleTracker \<Rightarrow> string list" where
  "get_discovered_deck iter s = sort (iter (discovered_cards s))"

text \<open>The dictionary built by the loop
  \<^verbatim>\<open>for play in self.play_history: last_play_time[play.card_name] = play.timestamp\<close>.\<close>

definition last_play_time :: "CardPlay list \<Rightarrow> (string \<rightharpoonup> real)" where
  "last_play_time history =
     foldl (\<lambda>m play. m(card_name play \<mapsto> timestamp play)) Map.empty history"

text \<open>The sort key \<^verbatim>\<open>last_play_time.get(card, float("-inf"))\<close>: the key of a card is
  a \<^typ>\<open>real option\<close>, where \<open>None\<close> stands for minus infinity; in the order on
  options \<open>None\<close> is below every \<open>Some t\<close>.\<close>

definition recency :: "(string \<rightharpoonup> real) \<Rightarrow> string \<Rightarrow> real option" where
  "recency m c = (case m c of None \<Rightarrow> None | Some t \<Rightarrow> Some t)"

text \<open>\<^verbatim>\<open>sorted(..., key=...)\<close> is a stable ascending sort, as \<open>sort_key\<close> is.\<close>

definition get_inferred_hand :: "(string set \<Rightarrow> string list) \<Rightarrow> CardCycleTracker \<Rightarrow> string list" where
  "get_inferred_hand iter s =
     (if play_history s = [] then []
      else if card (discovered_cards s) < 4 then sort (iter (discovered_cards s))
      else
        (let m = last_play_time (play_history s);
             cards_by_recency = sort_key (recency m) (iter (discovered_cards s))
         in take 4 cards_by_recency))"

text \<open>\<^verbatim>\<open>min(xs, key=f)\<close> on a non-empty list: the first element is the candidate, a
  later element replaces it only when its key is strictly smaller.\<close>

fun min_key :: "('a \<Rightarrow> 'k::linorder) \<Rightarrow> 'a \<Rightarrow> 'a list \<Rightarrow> 'a" where
  "min_key f best [] = best"
| "min_key f best (x # xs) = min_key f (if f x < f best then x else best) xs"

definition get_inferred_next_card :: "(string set \<Rightarrow> string list) \<Rightarrow> CardCycleTracker \<Rightarrow> string option" where
  "get_inferred_next_card iter s =
     (if play_history s = [] then None
      else if card (discovered_cards s) < 5 then None
      else
        (let inferred_hand = get_inferred_hand iter s;
             m = last_play_time (play_history s);
             cards_not_in_hand = filter (\<lambda>c. c \<notin> set inferred_hand) (iter (discovered_cards s))
         in case cards_not_in_hand of
              [] \<Rightarrow> None
            | c # cs \<Rightarrow> Some (min_key (recency m) c cs)))"

text \<open>A sequence of \<^verbatim>\<open>record_play\<close> calls, each given by its three arguments, and the
  tracker it leaves when run on a freshly constructed one.\<close>

fun record_plays :: "(string \<times> bool \<times> real) list \<Rightarrow> CardCycleTracker \<Rightarrow> CardCycleTracker" where
  "record_plays [] s = s"
| "record_plays ((name, evolved, t) # ps) s = record_plays ps (record_play name evolved t s)"

definition tracker_after :: "(string \<times> bool \<times> real) list \<Rightarrow> CardCycleTracker" where
  "tracker_after ps = record_plays ps init_CardCycleTracker"

text \<open>The ordering the specification asks for: discovered cards by last-played timestamp,
  ties broken by the card identifier.\<close>

definition cards_by_recency_then_name :: "CardCycleTracker \<Rightarrow> string list" where
  "cards_by_recency_then_name s =
     sort_key (\<lambda>c. (recency (last_play_time (play_history s)) c, c))
       (sorted_list_of_set (discovered_cards s))"

text \<open>The \<^verbatim>\<open>CardPlay\<close> object that a call \<^verbatim>\<open>record_play(name, evolved, t)\<close>
  appends to the history.\<close>

definition play_of :: "string \<times> bool \<times> real \<Rightarrow> CardPlay" where
  "play_of p = (case p of (name, evolved, t) \<Rightarrow>
     \<lparr>card_name = name, is_evolved = evolved, timestamp = t\<rparr>)"

text \<open>Two enumerations of a finite set of strings, as concrete iteration orders: by
  ascending and by descending card name.\<close>

definition lexicographic :: "string set \<Rightarrow> string list" where
  "lexicographic S = sorted_list_of_set S"

definition reverse_lexicographic :: "string set \<Rightarrow> string list" where
  "reverse_lexicographic S = rev (sorted_list_of_set S)"

text \<open>Two match logs. In the first, the last two cards are detected at the same
  timestamp. The second is the scenario of eight cards played at timestamps 0 to 7.\<close>

definition tied_plays :: "(string \<times> bool \<times> real) list" where
  "tied_plays =
     [(''Knight'', False, 1), (''Archers'', False, 2), (''Fireball'', False, 3),
      (''Log'', False, 4), (''Hog Rider'', False, 4)]"

definition eight_plays :: "(string \<times> bool \<times> real) list" where
  "eight_plays =
     [(''Knight'', False, 0), (''Archers'', False, 1), (''Fireball'', False, 2),
      (''Log'', False, 3), (''Hog Rider'', False, 4), (''Musketeer'', False, 5),
      (''Ice Spirit'', False, 6), (''Cannon'', False, 7)]"

section \<open>Properties of the elixir tracker\<close>

subsection \<open>The range of \<open>current_elixir\<close>\<close>

lemma seconds_per_elixir_pos: "config_ok s \<Longrightarrow> 0 < seconds_per_elixir s"
  by (simp add: config_ok_def seconds_per_elixir_def)

lemma call_preserves:
  assumes "config_ok s" "elixir_in_range s" "well_formed (last_update_timestamp s) (c # cs)"
  shows "\<exists>s'. call c s = Inr s' \<and> config_ok s' \<and> elixir_in_range s' \<and>
           well_formed (last_update_timestamp s') cs"
proof (cases c)
  case (UpdateTime now_seconds)
  show ?thesis
  proof (cases "last_update_timestamp s")
    case None
    with UpdateTime assms show ?thesis
      by (simp add: update_time_def config_ok_def elixir_in_range_def)
  next
    case (Some prev)
    from assms(1) have pos: "0 < seconds_per_elixir s" by (rule seconds_per_elixir_pos)
    from Some UpdateTime assms(3) have "prev \<le> now_seconds" by simp
    with pos have gain: "0 \<le> (now_seconds - prev) / seconds_per_elixir s" by simp
    with Some UpdateTime assms pos show ?thesis
      by (simp add: update_time_def config_ok_def elixir_in_range_def Let_def
          seconds_per_elixir_def)
  qed
next
  case (Spend cost)
  with assms show ?thesis
    by (simp add: spend_def config_ok_def elixir_in_range_def)
next
  case (Adjust delta)
  with assms show ?thesis
    by (simp add: adjust_def config_ok_def elixir_in_range_def)
next
  case SetSingle
  with assms show ?thesis
    by (simp add: set_single_elixir_def config_ok_def elixir_in_range_def)
next
  case SetDouble
  with assms show ?thesis
    by (simp add: set_double_elixir_def config_ok_def elixir_in_range_def)
next
  case SetTriple
  with assms show ?thesis
    by (simp add: set_triple_elixir_def config_ok_def elixir_in_range_def)
qed

lemma calls_preserve:
  "config_ok s \<Longrightarrow> elixir_in_range s \<Longrightarrow> well_formed (last_update_timestamp s) cs \<Longrightarrow>
   \<exists>s'. calls cs s = Inr s' \<and> config_ok s' \<and> elixir_in_range s'"
proof (induction cs arbitrary: s)
  case Nil
  then show ?case by simp
next
  case (Cons c cs)
  from call_preserves [OF Cons.prems] obtain s1 where
    s1: "call c s = Inr s1" "config_ok s1" "elixir_in_range s1"
        "well_formed (last_update_timestamp s1) cs" by blast
  from Cons.IH [OF s1(2,3,4)] s1(1) show ?case by simp
qed

lemma well_formed_take: "well_formed prev cs \<Longrightarrow> well_formed prev (take n cs)"
proof (induction prev cs arbitrary: n rule: well_formed.induct)
  case (1 prev)
  then show ?case by simp
qed (case_tac n; simp)+

text \<open>
  Claim C1, as amended. On a freshly constructed tracker with positive rates and a
  non-negative cap, every sequence of calls whose \<^verbatim>\<open>update_time\<close> timestamps never
  decrease and whose \<^verbatim>\<open>spend\<close> costs are not negative runs without an exception,
  and after each of its calls (after every prefix \<open>take n cs\<close>)
  \<open>0 \<le> current_elixir \<le> max_elixir\<close> holds. The arguments of \<^verbatim>\<open>adjust\<close> are
  arbitrary.
\<close>

theorem elixir_invariant_well_formed:
  assumes "0 < single" "0 < double" "0 < triple" "0 \<le> mx"
    and "well_formed None cs"
  shows "\<exists>s. calls (take n cs) (init_ElixirTracker single double triple mx) = Inr s \<and>
           0 \<le> current_elixir s \<and> current_elixir s \<le> max_elixir s"
proof -
  let ?s0 = "init_ElixirTracker single double triple mx"
  have "config_ok ?s0" "elixir_in_range ?s0" "last_update_timestamp ?s0 = None"
    using assms(1-4) by (simp_all add: config_ok_def elixir_in_range_def init_ElixirTracker_def)
  moreover have "well_formed None (take n cs)"
    using assms(5) by (rule well_formed_take)
  ultimately show ?thesis
    using calls_preserve [of ?s0 "take n cs"] by (auto simp: elixir_in_range_def)
qed

theorem elixir_invariant_well_formed_witness:
  "(0::real) < 2.8 \<and> (0::real) < 1.4 \<and> (0::real) < 0.9 \<and> (0::real) \<le> 10 \<and>
   well_formed None
     [UpdateTime 0, UpdateTime 2.8, Spend 3, Adjust (-20), SetDouble, UpdateTime 5] \<and>
   (\<exists>s. calls (take 6
              [UpdateTime 0, UpdateTime 2.8, Spend 3, Adjust (-20), SetDouble, UpdateTime 5])
           (init_ElixirTracker 2.8 1.4 0.9 10) = Inr s \<and>
        0 \<le> current_elixir s \<and> current_elixir s \<le> max_elixir s)"
  using elixir_invariant_well_formed
    [of "2.8" "1.4" "0.9" 10
        "[UpdateTime 0, UpdateTime 2.8, Spend 3, Adjust (-20), SetDouble, UpdateTime 5]" 6]
  by simp

text \<open>
  Claim C1 as stated fails. \<^verbatim>\<open>update_time\<close> bounds the new value from above only,
  so a timestamp that goes back takes \<open>current_elixir\<close> below zero:
  \<^verbatim>\<open>update_time(0.0); update_time(-14.0)\<close> on the default tracker leaves \<open>-5\<close>.
  \<^verbatim>\<open>spend\<close> bounds it from below only, so a negative cost takes it above the cap:
  \<^verbatim>\<open>spend(-11.0)\<close> on the default tracker leaves \<open>11\<close>, with \<open>max_elixir = 10\<close>.
\<close>

theorem elixir_invariant_counterexample:
  "calls [UpdateTime 0, UpdateTime (-14)] default_ElixirTracker =
     Inr (default_ElixirTracker\<lparr>current_elixir := -5, last_update_timestamp := Some (-14)\<rparr>)
   \<and> \<not> elixir_in_range
         (default_ElixirTracker\<lparr>current_elixir := -5, last_update_timestamp := Some (-14)\<rparr>)
   \<and> calls [Spend (-11)] default_ElixirTracker =
     Inr (default_ElixirTracker\<lparr>current_elixir := 11\<rparr>)
   \<and> \<not> elixir_in_range (default_ElixirTracker\<lparr>current_elixir := 11\<rparr>)"
  by (simp add: default_ElixirTracker_def init_ElixirTracker_def update_time_def
      seconds_per_elixir_def spend_def elixir_in_range_def Let_def)

subsection \<open>The first two updates\<close>

text \<open>
  Claim C5. On a freshly constructed tracker (phase \<^verbatim>\<open>"single"\<close>) whose single-phase
  rate \<open>r\<close> is not zero, the first \<^verbatim>\<open>update_time(now1)\<close> only records \<open>now1\<close>:
  the state is the fresh one with the timestamp set, and \<open>current_elixir\<close> stays \<open>0\<close>.
  The second call \<^verbatim>\<open>update_time(now2)\<close> then leaves
  \<open>current_elixir = min max_elixir ((now2 - now1) / r)\<close>. This holds for all
  \<open>now1\<close> and \<open>now2\<close>, in particular for \<open>now2 > now1 \<ge> 0\<close>. (At \<open>r = 0\<close> the
  second call raises \<^verbatim>\<open>ZeroDivisionError\<close>.)
\<close>

theorem first_update_is_baseline:
  assumes "r \<noteq> 0"
  shows "update_time now1 (init_ElixirTracker r double triple mx) =
           Inr ((init_ElixirTracker r double triple mx)\<lparr>last_update_timestamp := Some now1\<rparr>)
       \<and> current_elixir
           ((init_ElixirTracker r double triple mx)\<lparr>last_update_timestamp := Some now1\<rparr>) = 0
       \<and> calls [UpdateTime now1, UpdateTime now2] (init_ElixirTracker r double triple mx) =
           Inr ((init_ElixirTracker r double triple mx)
                  \<lparr>current_elixir := min mx ((now2 - now1) / r),
                   last_update_timestamp := Some now2\<rparr>)"
  using assms
  by (simp add: update_time_def init_ElixirTracker_def seconds_per_elixir_def Let_def min.commute)

theorem first_update_is_baseline_witness:
  "(2.8::real) \<noteq> 0 \<and>
   calls [UpdateTime 0, UpdateTime 2.8] default_ElixirTracker =
     Inr (default_ElixirTracker\<lparr>current_elixir := 1, last_update_timestamp := Some 2.8\<rparr>)"
proof -
  have nz: "(2.8::real) \<noteq> 0" by simp
  from first_update_is_baseline [OF nz, of 0 "1.4" "0.9" 10 "2.8"]
  have "calls [UpdateTime 0, UpdateTime 2.8] (init_ElixirTracker 2.8 1.4 0.9 10) =
          Inr ((init_ElixirTracker 2.8 1.4 0.9 10)
                 \<lparr>current_elixir := min 10 ((2.8 - 0) / 2.8),
                  last_update_timestamp := Some 2.8\<rparr>)"
    by blast
  then show ?thesis
    by (simp add: default_ElixirTracker_def del: calls.simps)
qed

subsection \<open>Spending twice\<close>




subsection \<open>Manual adjustment\<close>

lemma max_elixir_fold_adjust: "max_elixir (fold adjust deltas s) = max_elixir s"
  by (induction deltas arbitrary: s) (simp_all add: adjust_def)

lemma adjust_in_range:
  "0 \<le> max_elixir s \<Longrightarrow>
   0 \<le> current_elixir (adjust delta s) \<and> current_elixir (adjust delta s) \<le> max_elixir s"
  by (simp add: adjust_def)

text \<open>
  Claim C7. \<^verbatim>\<open>adjust(delta)\<close> sets \<open>current_elixir\<close> to
  \<open>max 0 (min (current_elixir + delta) max_elixir)\<close>. When \<open>max_elixir \<ge> 0\<close> this is
  also \<open>min max_elixir (max 0 (current_elixir + delta))\<close>, the value lies between
  \<open>0\<close> and \<open>max_elixir\<close>, and so does the value after any number of further
  \<^verbatim>\<open>adjust\<close> calls before it (the calls \<open>deltas\<close>, then \<open>delta\<close>), whatever their
  arguments.
\<close>

theorem adjust_clamps:
  "current_elixir (adjust delta s) = max 0 (min (current_elixir s + delta) (max_elixir s)) \<and>
   (0 \<le> max_elixir s \<longrightarrow>
      current_elixir (adjust delta s) = min (max_elixir s) (max 0 (current_elixir s + delta)) \<and>
      0 \<le> current_elixir (adjust delta s) \<and>
      current_elixir (adjust delta s) \<le> max_elixir s \<and>
      0 \<le> current_elixir (fold adjust (deltas @ [delta]) s) \<and>
      current_elixir (fold adjust (deltas @ [delta]) s) \<le> max_elixir s)"
proof -
  have a: "current_elixir (adjust delta s) = max 0 (min (current_elixir s + delta) (max_elixir s))"
    by (simp add: adjust_def)
  have b: "current_elixir (adjust delta s) = min (max_elixir s) (max 0 (current_elixir s + delta))"
    if "0 \<le> max_elixir s"
    using that by (simp add: adjust_def min_def max_def)
  have c: "0 \<le> current_elixir (fold adjust (deltas @ [delta]) s) \<and>
      current_elixir (fold adjust (deltas @ [delta]) s) \<le> max_elixir s"
    if "0 \<le> max_elixir s"
  proof -
    from that have "0 \<le> max_elixir (fold adjust deltas s)"
      by (simp add: max_elixir_fold_adjust)
    from adjust_in_range [OF this, of delta] show ?thesis
      by (simp add: max_elixir_fold_adjust)
  qed
  from a b c adjust_in_range [of s delta] show ?thesis by blast
qed

theorem adjust_clamps_witness:
  "current_elixir (adjust 1000 default_ElixirTracker) = 10 \<and>
   current_elixir (fold adjust ([1000, -5000, 3] @ [1000]) default_ElixirTracker) = 10 \<and>
   current_elixir (fold adjust ([1000, 2, 3] @ [-1000]) default_ElixirTracker) = 0 \<and>
   (0::real) \<le> max_elixir default_ElixirTracker"
  using adjust_clamps [of 1000 default_ElixirTracker "[1000, -5000, 3]"]
  by (simp add: default_ElixirTracker_def init_ElixirTracker_def adjust_def)

subsection \<open>Switching the phase\<close>

text \<open>
  Claim C9. Each of \<^verbatim>\<open>set_single_elixir\<close>, \<^verbatim>\<open>set_double_elixir\<close> and
  \<^verbatim>\<open>set_triple_elixir\<close> returns the state it was given with the phase field replaced:
  \<open>current_elixir\<close>, \<open>last_update_timestamp\<close>, \<open>max_elixir\<close> and the three rates are
  unchanged.
\<close>

theorem set_phase_frame:
  "set_single_elixir s = s\<lparr>phase := ''single''\<rparr> \<and>
   set_double_elixir s = s\<lparr>phase := ''double''\<rparr> \<and>
   set_triple_elixir s = s\<lparr>phase := ''triple''\<rparr> \<and>
   current_elixir (set_single_elixir s) = current_elixir s \<and>
   current_elixir (set_double_elixir s) = current_elixir s \<and>
   current_elixir (set_triple_elixir s) = current_elixir s \<and>
   last_update_timestamp (set_single_elixir s) = last_update_timestamp s \<and>
   last_update_timestamp (set_double_elixir s) = last_update_timestamp s \<and>
   last_update_timestamp (set_triple_elixir s) = last_update_timestamp s \<and>
   max_elixir (set_single_elixir s) = max_elixir s \<and>
   max_elixir (set_double_elixir s) = max_elixir s \<and>
   max_elixir (set_triple_elixir s) = max_elixir s \<and>
   single_seconds_per_elixir (set_single_elixir s) = single_seconds_per_elixir s \<and>
   single_seconds_per_elixir (set_double_elixir s) = single_seconds_per_elixir s \<and>
   single_seconds_per_elixir (set_triple_elixir s) = single_seconds_per_elixir s \<and>
   double_seconds_per_elixir (set_single_elixir s) = double_seconds_per_elixir s \<and>
   double_seconds_per_elixir (set_double_elixir s) = double_seconds_per_elixir s \<and>
   double_seconds_per_elixir (set_triple_elixir s) = double_seconds_per_elixir s \<and>
   triple_seconds_per_elixir (set_single_elixir s) = triple_seconds_per_elixir s \<and>
   triple_seconds_per_elixir (set_double_elixir s) = triple_seconds_per_elixir s \<and>
   triple_seconds_per_elixir (set_triple_elixir s) = triple_seconds_per_elixir s"
  by (simp add: set_single_elixir_def set_double_elixir_def set_triple_elixir_def)

section \<open>Properties of the card cycle tracker\<close>

subsection \<open>The state after a sequence of plays\<close>

lemma discovered_cards_record_play:
  "discovered_cards (record_play name evolved t s) = insert name (discovered_cards s)"
  by (auto simp: record_play_def Let_def)

lemma play_history_record_play:
  "play_history (record_play name evolved t s) = play_history s @ [play_of (name, evolved, t)]"
  by (simp add: record_play_def Let_def play_of_def)

lemma discovered_cards_record_plays:
  "discovered_cards (record_plays ps s) = discovered_cards s \<union> fst ` set ps"
  by (induction ps s rule: record_plays.induct) (auto simp: discovered_cards_record_play)

lemma play_history_record_plays:
  "play_history (record_plays ps s) = play_history s @ map play_of ps"
  by (induction ps s rule: record_plays.induct) (simp_all add: play_history_record_play)

lemma record_plays_append:
  "record_plays (ps @ qs) s = record_plays qs (record_plays ps s)"
  by (induction ps s rule: record_plays.induct) simp_all

lemma discovered_cards_tracker_after:
  "discovered_cards (tracker_after ps) = fst ` set ps"
  by (simp add: tracker_after_def discovered_cards_record_plays init_CardCycleTracker_def)

lemma play_history_tracker_after:
  "play_history (tracker_after ps) = map play_of ps"
  by (simp add: tracker_after_def play_history_record_plays init_CardCycleTracker_def)

lemma card_name_play_of: "card_name (play_of p) = fst p"
  by (cases p) (simp add: play_of_def)

lemma finite_discovered: "finite (discovered_cards (tracker_after ps))"
  by (simp add: discovered_cards_tracker_after)

text \<open>
  Claim C8. After every sequence \<open>ps\<close> of \<^verbatim>\<open>record_play\<close> calls on a fresh tracker
  there are at most as many discovered cards as history entries, and every discovered card
  is the \<open>card_name\<close> of an entry of the history. A further call
  \<^verbatim>\<open>record_play(name, evolved, t)\<close> leads to the state after \<open>ps\<close> extended by that
  call; it keeps every discovered card, and the set grows, by \<open>name\<close>, exactly when
  \<open>name\<close> was not in it. Over any number of further calls \<open>qs\<close> the set never shrinks.
\<close>

theorem discovered_cards_invariant:
  "card (discovered_cards (tracker_after ps)) \<le> length (play_history (tracker_after ps)) \<and>
   discovered_cards (tracker_after ps) \<subseteq> card_name ` set (play_history (tracker_after ps)) \<and>
   record_play name evolved t (tracker_after ps) = tracker_after (ps @ [(name, evolved, t)]) \<and>
   discovered_cards (tracker_after ps) \<subseteq>
     discovered_cards (record_play name evolved t (tracker_after ps)) \<and>
   discovered_cards (record_play name evolved t (tracker_after ps)) =
     (if name \<in> discovered_cards (tracker_after ps) then discovered_cards (tracker_after ps)
      else insert name (discovered_cards (tracker_after ps))) \<and>
   discovered_cards (tracker_after ps) \<subseteq> discovered_cards (tracker_after (ps @ qs))"
proof -
  have "card (fst ` set ps) \<le> card (set ps)" by (rule card_image_le) simp
  also have "\<dots> \<le> length ps" by (rule card_length)
  finally have a: "card (discovered_cards (tracker_after ps)) \<le>
      length (play_history (tracker_after ps))"
    by (simp add: discovered_cards_tracker_after play_history_tracker_after)
  have b: "discovered_cards (tracker_after ps) \<subseteq>
      card_name ` set (play_history (tracker_after ps))"
    by (simp add: discovered_cards_tracker_after play_history_tracker_after image_image
        card_name_play_of)
  have c: "record_play name evolved t (tracker_after ps) =
      tracker_after (ps @ [(name, evolved, t)])"
    by (simp add: tracker_after_def record_plays_append)
  have d: "discovered_cards (record_play name evolved t (tracker_after ps)) =
     (if name \<in> discovered_cards (tracker_after ps) then discovered_cards (tracker_after ps)
      else insert name (discovered_cards (tracker_after ps)))"
    by (auto simp: discovered_cards_record_play)
  have e: "discovered_cards (tracker_after ps) \<subseteq> discovered_cards (tracker_after (ps @ qs))"
    by (auto simp: discovered_cards_tracker_after)
  from a b c d e show ?thesis
    by (auto simp: discovered_cards_record_play)
qed

theorem discovered_cards_invariant_witness:
  "discovered_cards (tracker_after [(''Knight'', False, 1), (''Archers'', False, 2),
      (''Knight'', True, 3)]) = {''Knight'', ''Archers''} \<and>
   length (play_history (tracker_after [(''Knight'', False, 1), (''Archers'', False, 2),
      (''Knight'', True, 3)])) = 3 \<and>
   card (discovered_cards (tracker_after [(''Knight'', False, 1), (''Archers'', False, 2),
      (''Knight'', True, 3)])) \<le> 3"
  using discovered_cards_invariant
    [of "[(''Knight'', False, 1), (''Archers'', False, 2), (''Knight'', True, 3)]"]
  by (auto simp: tracker_after_def init_CardCycleTracker_def record_play_def Let_def)

subsection \<open>The dictionary of last play times\<close>

lemma last_play_time_snoc:
  "last_play_time (h @ [p]) = (last_play_time h)(card_name p \<mapsto> timestamp p)"
  by (simp add: last_play_time_def)

lemma last_play_time_Nil: "last_play_time [] = Map.empty"
  by (simp add: last_play_time_def)

lemma last_play_time_filter:
  "last_play_time h c =
     (if filter (\<lambda>p. card_name p = c) h = [] then None
      else Some (timestamp (last (filter (\<lambda>p. card_name p = c) h))))"
proof (induction h rule: rev_induct)
  case Nil
  then show ?case by (simp add: last_play_time_Nil)
next
  case (snoc p h)
  then show ?case
    by (simp add: last_play_time_snoc)
qed

text \<open>The dictionary depends on the names and the timestamps of the history only.\<close>

lemma last_play_time_cong:
  "map (\<lambda>p. (card_name p, timestamp p)) h = map (\<lambda>p. (card_name p, timestamp p)) h' \<Longrightarrow>
   last_play_time h = last_play_time h'"
proof (induction h arbitrary: h' rule: rev_induct)
  case Nil
  then show ?case by simp
next
  case (snoc p h)
  from snoc.prems obtain p' h0 where h': "h' = h0 @ [p']"
    by (cases h' rule: rev_cases) auto
  with snoc.prems have eq: "map (\<lambda>p. (card_name p, timestamp p)) h = map (\<lambda>p. (card_name p, timestamp p)) h0"
    and pp: "card_name p = card_name p'" "timestamp p = timestamp p'"
    by auto
  from snoc.IH [OF eq] pp h' show ?case by (simp add: last_play_time_snoc)
qed

lemma queries_cong:
  assumes "discovered_cards s = discovered_cards s'"
    and "last_play_time (play_history s) = last_play_time (play_history s')"
    and "play_history s = [] \<longleftrightarrow> play_history s' = []"
  shows "get_discovered_deck iter s = get_discovered_deck iter s'"
    and "get_inferred_hand iter s = get_inferred_hand iter s'"
    and "get_inferred_next_card iter s = get_inferred_next_card iter s'"
proof -
  show "get_discovered_deck iter s = get_discovered_deck iter s'"
    using assms(1) by (simp add: get_discovered_deck_def)
  show h: "get_inferred_hand iter s = get_inferred_hand iter s'"
    using assms by (simp add: get_inferred_hand_def)
  show "get_inferred_next_card iter s = get_inferred_next_card iter s'"
    using assms by (simp add: get_inferred_next_card_def h)
qed

subsection \<open>The evolved flag\<close>

text \<open>
  Claim C10. Two sequences of \<^verbatim>\<open>record_play\<close> calls that agree in every card name
  and timestamp, and differ at most in the \<^verbatim>\<open>is_evolved\<close> arguments, give the same
  results of \<^verbatim>\<open>get_discovered_deck\<close>, \<^verbatim>\<open>get_inferred_hand\<close> and
  \<^verbatim>\<open>get_inferred_next_card\<close> after every prefix (the first \<open>k\<close> calls), for every
  iteration order of the set.
\<close>

theorem is_evolved_noninterference:
  assumes "map (\<lambda>(name, evolved, t). (name, t)) ps = map (\<lambda>(name, evolved, t). (name, t)) qs"
  shows "get_discovered_deck iter (tracker_after (take k ps)) =
           get_discovered_deck iter (tracker_after (take k qs)) \<and>
         get_inferred_hand iter (tracker_after (take k ps)) =
           get_inferred_hand iter (tracker_after (take k qs)) \<and>
         get_inferred_next_card iter (tracker_after (take k ps)) =
           get_inferred_next_card iter (tracker_after (take k qs))"
proof -
  let ?pr = "\<lambda>(name, evolved, t). (name, t)"
  let ?s = "tracker_after (take k ps)" and ?s' = "tracker_after (take k qs)"
  from assms have "take k (map ?pr ps) = take k (map ?pr qs)" by simp
  then have eq: "map ?pr (take k ps) = map ?pr (take k qs)" by (simp add: take_map)
  then have "map fst (map ?pr (take k ps)) = map fst (map ?pr (take k qs))" by simp
  then have "map fst (take k ps) = map fst (take k qs)"
    by (simp add: case_prod_beta comp_def)
  then have "set (map fst (take k ps)) = set (map fst (take k qs))" by simp
  then have d: "discovered_cards ?s = discovered_cards ?s'"
    by (simp add: discovered_cards_tracker_after)
  have nt: "(\<lambda>p. (card_name p, timestamp p)) \<circ> play_of = ?pr"
    by (auto simp: play_of_def fun_eq_iff)
  from eq have "map (\<lambda>p. (card_name p, timestamp p)) (play_history ?s) =
      map (\<lambda>p. (card_name p, timestamp p)) (play_history ?s')"
    by (simp add: play_history_tracker_after nt)
  then have l: "last_play_time (play_history ?s) = last_play_time (play_history ?s')"
    by (rule last_play_time_cong)
  from eq have "length (map ?pr (take k ps)) = length (map ?pr (take k qs))" by simp
  then have "length (take k ps) = length (take k qs)" by (simp only: length_map)
  then have "take k ps = [] \<longleftrightarrow> take k qs = []"
    by (cases "take k ps"; cases "take k qs"; simp)
  then have e: "play_history ?s = [] \<longleftrightarrow> play_history ?s' = []"
    by (simp only: play_history_tracker_after map_is_Nil_conv)
  from queries_cong [OF d l e] show ?thesis by blast
qed

theorem is_evolved_noninterference_witness:
  "map (\<lambda>(name, evolved, t). (name, t))
     [(''Knight'', False, 1::real), (''Archers'', True, 2)] =
   map (\<lambda>(name, evolved, t). (name, t))
     [(''Knight'', True, 1::real), (''Archers'', False, 2)] \<and>
   get_inferred_hand (\<lambda>S. [''Knight'', ''Archers''])
     (tracker_after (take 2 [(''Knight'', False, 1), (''Archers'', True, 2)])) =
   get_inferred_hand (\<lambda>S. [''Knight'', ''Archers''])
     (tracker_after (take 2 [(''Knight'', True, 1), (''Archers'', False, 2)]))"
  using is_evolved_noninterference
    [of "[(''Knight'', False, 1), (''Archers'', True, 2)]"
        "[(''Knight'', True, 1), (''Archers'', False, 2)]"
        "\<lambda>S. [''Knight'', ''Archers'']" 2]
  by simp

subsection \<open>Iteration orders, sorting and the minimum\<close>

lemma recency_eq: "recency m c = m c"
  by (simp add: recency_def split: option.splits)

lemma iterates_distinct: "iterates iter S \<Longrightarrow> distinct (iter S)"
  by (simp add: iterates_def)

lemma iterates_set: "iterates iter S \<Longrightarrow> set (iter S) = S"
  by (simp add: iterates_def)

lemma iterates_length: "iterates iter S \<Longrightarrow> length (iter S) = card S"
  using distinct_card [of "iter S"] by (simp add: iterates_def)

lemma sort_iterates:
  assumes "iterates iter S"
  shows "sort (iter S) = sorted_list_of_set S"
proof -
  from assms have d: "distinct (iter S)" and s: "set (iter S) = S"
    by (simp_all add: iterates_def)
  have "sorted_list_of_set (set (iter S)) = sort (remdups (iter S))"
    by (rule sorted_list_of_set_sort_remdups)
  then show ?thesis
    unfolding s by (simp add: distinct_remdups_id [OF d])
qed

lemma min_key_in: "min_key f b xs \<in> set (b # xs)"
proof (induction xs arbitrary: b)
  case Nil
  then show ?case by simp
next
  case (Cons x xs)
  from Cons.IH [of "if f x < f b then x else b"] show ?case
    by (auto split: if_splits)
qed

lemma play_history_empty_iff:
  "play_history (tracker_after ps) = [] \<longleftrightarrow> discovered_cards (tracker_after ps) = {}"
  by (simp add: play_history_tracker_after discovered_cards_tracker_after)

lemma hand_when_four:
  assumes "4 \<le> card (discovered_cards (tracker_after ps))"
  shows "get_inferred_hand iter (tracker_after ps) =
           take 4 (sort_key (recency (last_play_time (play_history (tracker_after ps))))
                     (iter (discovered_cards (tracker_after ps))))"
proof -
  from assms have "discovered_cards (tracker_after ps) \<noteq> {}" by auto
  then have "play_history (tracker_after ps) \<noteq> []"
    by (simp add: play_history_empty_iff)
  with assms show ?thesis
    by (simp add: get_inferred_hand_def)
qed







subsection \<open>Two concrete match logs\<close>

lemma iterates_lexicographic: "finite S \<Longrightarrow> iterates lexicographic S"
  by (simp add: iterates_def lexicographic_def)


lemma tracker_after_tied_plays:
  "tracker_after tied_plays =
     \<lparr>discovered_cards = {''Knight'', ''Archers'', ''Fireball'', ''Log'', ''Hog Rider''},
      play_history =
        [\<lparr>card_name = ''Knight'', is_evolved = False, timestamp = 1\<rparr>,
         \<lparr>card_name = ''Archers'', is_evolved = False, timestamp = 2\<rparr>,
         \<lparr>card_name = ''Fireball'', is_evolved = False, timestamp = 3\<rparr>,
         \<lparr>card_name = ''Log'', is_evolved = False, timestamp = 4\<rparr>,
         \<lparr>card_name = ''Hog Rider'', is_evolved = False, timestamp = 4\<rparr>]\<rparr>"
  by (auto simp: tied_plays_def tracker_after_def init_CardCycleTracker_def record_play_def
      Let_def)

lemma tracker_after_eight_plays:
  "tracker_after eight_plays =
     \<lparr>discovered_cards = {''Knight'', ''Archers'', ''Fireball'', ''Log'', ''Hog Rider'',
        ''Musketeer'', ''Ice Spirit'', ''Cannon''},
      play_history =
        [\<lparr>card_name = ''Knight'', is_evolved = False, timestamp = 0\<rparr>,
         \<lparr>card_name = ''Archers'', is_evolved = False, timestamp = 1\<rparr>,
         \<lparr>card_name = ''Fireball'', is_evolved = False, timestamp = 2\<rparr>,
         \<lparr>card_name = ''Log'', is_evolved = False, timestamp = 3\<rparr>,
         \<lparr>card_name = ''Hog Rider'', is_evolved = False, timestamp = 4\<rparr>,
         \<lparr>card_name = ''Musketeer'', is_evolved = False, timestamp = 5\<rparr>,
         \<lparr>card_name = ''Ice Spirit'', is_evolved = False, timestamp = 6\<rparr>,
         \<lparr>card_name = ''Cannon'', is_evolved = False, timestamp = 7\<rparr>]\<rparr>"
  by (auto simp: eight_plays_def tracker_after_def init_CardCycleTracker_def record_play_def
      Let_def)

lemmas eval_queries =
  get_inferred_hand_def get_inferred_next_card_def cards_by_recency_then_name_def
  last_play_time_def recency_def lexicographic_def reverse_lexicographic_def
  sorted_list_of_set_insert_remove


lemma card_eight: "card (discovered_cards (tracker_after eight_plays)) = 8"
  by (simp add: tracker_after_eight_plays)


subsection \<open>The inferred next card\<close>

text \<open>
  Claim C3. In the state after any sequence of \<^verbatim>\<open>record_play\<close> calls, whatever the
  iteration order of the set: \<^verbatim>\<open>get_inferred_next_card\<close> returns \<^verbatim>\<open>None\<close> when
  fewer than 5 distinct cards are discovered, and otherwise returns a discovered card
  that is not in the list \<^verbatim>\<open>get_inferred_hand\<close> returns.
\<close>

theorem next_card_outside_hand:
  assumes "iterates iter (discovered_cards (tracker_after ps))"
  shows "(card (discovered_cards (tracker_after ps)) < 5 \<longrightarrow>
            get_inferred_next_card iter (tracker_after ps) = None) \<and>
         (5 \<le> card (discovered_cards (tracker_after ps)) \<longrightarrow>
            (\<exists>c. get_inferred_next_card iter (tracker_after ps) = Some c \<and>
                 c \<in> discovered_cards (tracker_after ps) \<and>
                 c \<notin> set (get_inferred_hand iter (tracker_after ps))))"
proof (intro conjI impI)
  assume "card (discovered_cards (tracker_after ps)) < 5"
  then show "get_inferred_next_card iter (tracker_after ps) = None"
    by (simp add: get_inferred_next_card_def)
next
  let ?s = "tracker_after ps"
  let ?D = "discovered_cards ?s"
  let ?hand = "get_inferred_hand iter ?s"
  let ?N = "filter (\<lambda>c. c \<notin> set ?hand) (iter ?D)"
  assume five: "5 \<le> card ?D"
  then have "?D \<noteq> {}" by auto
  then have hist: "play_history ?s \<noteq> []" by (simp add: play_history_empty_iff)
  from five have "4 \<le> card ?D" by simp
  from hand_when_four [OF this] have "length ?hand \<le> 4" by simp
  moreover have "card (set ?hand) \<le> length ?hand" by (rule card_length)
  ultimately have "card (set ?hand) < card ?D" using five by simp
  then have "\<not> ?D \<subseteq> set ?hand"
    using card_mono [of "set ?hand" ?D] by auto
  then obtain x where "x \<in> ?D" "x \<notin> set ?hand" by blast
  with assms have "x \<in> set ?N" by (simp add: iterates_set)
  then obtain c cs where N: "?N = c # cs" by (cases ?N) auto
  let ?r = "min_key (recency (last_play_time (play_history ?s))) c cs"
  from five hist N have "get_inferred_next_card iter ?s = Some ?r"
    by (simp add: get_inferred_next_card_def Let_def)
  moreover have "?r \<in> set ?N" unfolding N by (rule min_key_in)
  then have "?r \<in> ?D" "?r \<notin> set ?hand"
    using assms by (simp_all add: iterates_set)
  ultimately show "\<exists>c. get_inferred_next_card iter ?s = Some c \<and> c \<in> ?D \<and> c \<notin> set ?hand"
    by blast
qed

theorem next_card_outside_hand_witness:
  "iterates lexicographic (discovered_cards (tracker_after eight_plays)) \<and>
   5 \<le> card (discovered_cards (tracker_after eight_plays)) \<and>
   (\<exists>c. get_inferred_next_card lexicographic (tracker_after eight_plays) = Some c \<and>
        c \<in> discovered_cards (tracker_after eight_plays) \<and>
        c \<notin> set (get_inferred_hand lexicographic (tracker_after eight_plays))) \<and>
   card (discovered_cards (tracker_after tied_plays)) = 5 \<and>
   card (discovered_cards (tracker_after (take 4 tied_plays))) < 5 \<and>
   get_inferred_next_card lexicographic (tracker_after (take 4 tied_plays)) = None"
proof -
  have it: "iterates lexicographic (discovered_cards (tracker_after eight_plays))"
    by (rule iterates_lexicographic [OF finite_discovered])
  have it4: "iterates lexicographic (discovered_cards (tracker_after (take 4 tied_plays)))"
    by (rule iterates_lexicographic [OF finite_discovered])
  have lt: "card (discovered_cards (tracker_after (take 4 tied_plays))) < 5"
    by (simp add: tied_plays_def discovered_cards_tracker_after)
  have "card (discovered_cards (tracker_after tied_plays)) = 5"
    by (simp add: tracker_after_tied_plays)
  with next_card_outside_hand [OF it] next_card_outside_hand [OF it4] it lt
  show ?thesis
    by (simp add: card_eight)
qed

subsection \<open>The inferred hand\<close>

text \<open>
  Claim C4. In the state after any sequence of \<^verbatim>\<open>record_play\<close> calls, whatever the
  iteration order of the set: \<^verbatim>\<open>get_inferred_hand\<close> returns the empty list when the
  history is empty; the discovered cards in lexicographic order when fewer than 4 are
  discovered; and otherwise 4 distinct discovered cards such that no discovered card
  outside the result has a smaller last-played timestamp than a card of the result. The
  last-played timestamp of a discovered card is the timestamp of the last entry of the
  history with its name (the last value written in a scan in insertion order). The result
  never has more than 4 elements.
\<close>

theorem inferred_hand_cases:
  assumes "iterates iter (discovered_cards (tracker_after ps))"
  shows "(play_history (tracker_after ps) = [] \<longrightarrow>
            get_inferred_hand iter (tracker_after ps) = []) \<and>
         (card (discovered_cards (tracker_after ps)) < 4 \<longrightarrow>
            get_inferred_hand iter (tracker_after ps) =
              sorted_list_of_set (discovered_cards (tracker_after ps))) \<and>
         (4 \<le> card (discovered_cards (tracker_after ps)) \<longrightarrow>
            length (get_inferred_hand iter (tracker_after ps)) = 4 \<and>
            distinct (get_inferred_hand iter (tracker_after ps)) \<and>
            set (get_inferred_hand iter (tracker_after ps)) \<subseteq>
              discovered_cards (tracker_after ps) \<and>
            (\<forall>c \<in> set (get_inferred_hand iter (tracker_after ps)).
             \<forall>d \<in> discovered_cards (tracker_after ps) -
                   set (get_inferred_hand iter (tracker_after ps)).
               recency (last_play_time (play_history (tracker_after ps))) c \<le>
               recency (last_play_time (play_history (tracker_after ps))) d)) \<and>
         (\<forall>c \<in> discovered_cards (tracker_after ps).
            recency (last_play_time (play_history (tracker_after ps))) c =
              Some (timestamp (last (filter (\<lambda>p. card_name p = c)
                                       (play_history (tracker_after ps)))))) \<and>
         length (get_inferred_hand iter (tracker_after ps)) \<le> 4"
proof -
  let ?s = "tracker_after ps"
  let ?D = "discovered_cards ?s"
  let ?f = "recency (last_play_time (play_history ?s))"
  let ?K = "sort_key ?f (iter ?D)"
  let ?hand = "get_inferred_hand iter ?s"
  have a: "?hand = []" if "play_history ?s = []"
    using that by (simp add: get_inferred_hand_def)
  have b: "?hand = sorted_list_of_set ?D" if lt: "card ?D < 4"
  proof (cases "play_history ?s = []")
    case True
    then have "?D = {}" by (simp add: play_history_empty_iff)
    with True show ?thesis by (simp add: get_inferred_hand_def)
  next
    case False
    with lt show ?thesis
      by (simp add: get_inferred_hand_def sort_iterates [OF assms])
  qed
  have c: "length ?hand = 4 \<and> distinct ?hand \<and> set ?hand \<subseteq> ?D \<and>
      (\<forall>c \<in> set ?hand. \<forall>d \<in> ?D - set ?hand. ?f c \<le> ?f d)" if ge: "4 \<le> card ?D"
  proof -
    have hand: "?hand = take 4 ?K" by (rule hand_when_four [OF ge])
    have len: "length ?K = card ?D" by (simp add: iterates_length [OF assms])
    have dist: "distinct ?K" by (simp add: iterates_distinct [OF assms])
    have setK: "set ?K = ?D" by (simp add: iterates_set [OF assms])
    have "sorted (map ?f ?K)" by (rule sorted_sort_key)
    then have "sorted (map ?f (take 4 ?K) @ map ?f (drop 4 ?K))"
      by (simp flip: map_append)
    then have le: "\<forall>x \<in> set (take 4 ?K). \<forall>y \<in> set (drop 4 ?K). ?f x \<le> ?f y"
      by (simp add: sorted_append)
    have "?D - set (take 4 ?K) \<subseteq> set (drop 4 ?K)"
      using setK set_append [of "take 4 ?K" "drop 4 ?K"] by auto
    with le have "\<forall>c \<in> set (take 4 ?K). \<forall>d \<in> ?D - set (take 4 ?K). ?f c \<le> ?f d"
      by blast
    moreover have "length (take 4 ?K) = 4" using ge len by simp
    moreover have "distinct (take 4 ?K)" using dist by simp
    moreover have "set (take 4 ?K) \<subseteq> ?D" using setK set_take_subset [of 4 ?K] by simp
    ultimately show ?thesis unfolding hand by blast
  qed
  have d: "?f c = Some (timestamp (last (filter (\<lambda>p. card_name p = c) (play_history ?s))))"
    if "c \<in> ?D" for c
  proof -
    from that have "c \<in> card_name ` set (play_history ?s)"
      by (simp add: discovered_cards_tracker_after play_history_tracker_after image_image
          card_name_play_of)
    then have "filter (\<lambda>p. card_name p = c) (play_history ?s) \<noteq> []"
      by (auto simp: filter_empty_conv)
    then show ?thesis
      by (simp add: recency_eq last_play_time_filter)
  qed
  have e: "length ?hand \<le> 4"
  proof (cases "4 \<le> card ?D")
    case True
    with c show ?thesis by simp
  next
    case False
    then have "card ?D < 4" by simp
    from b [OF this] this show ?thesis
      by (simp add: discovered_cards_tracker_after)
  qed
  from a b c d e show ?thesis by blast
qed

theorem inferred_hand_cases_witness:
  "iterates lexicographic (discovered_cards (tracker_after eight_plays)) \<and>
   length (get_inferred_hand lexicographic (tracker_after eight_plays)) = 4 \<and>
   get_inferred_hand lexicographic (tracker_after eight_plays) =
     [''Knight'', ''Archers'', ''Fireball'', ''Log''] \<and>
   get_inferred_hand lexicographic (tracker_after (take 3 eight_plays)) =
     [''Archers'', ''Fireball'', ''Knight'']"
proof -
  have it: "iterates lexicographic (discovered_cards (tracker_after eight_plays))"
    by (rule iterates_lexicographic [OF finite_discovered])
  have hand: "get_inferred_hand lexicographic (tracker_after eight_plays) =
     [''Knight'', ''Archers'', ''Fireball'', ''Log'']"
    by (simp add: tracker_after_eight_plays eval_queries)
  have it3: "iterates lexicographic (discovered_cards (tracker_after (take 3 eight_plays)))"
    by (rule iterates_lexicographic [OF finite_discovered])
  have three: "discovered_cards (tracker_after (take 3 eight_plays)) =
      {''Knight'', ''Archers'', ''Fireball''}"
    by (simp add: eight_plays_def discovered_cards_tracker_after)
  have "card (discovered_cards (tracker_after (take 3 eight_plays))) < 4"
    by (simp add: three)
  with inferred_hand_cases [OF it3]
  have "get_inferred_hand lexicographic (tracker_after (take 3 eight_plays)) =
      sorted_list_of_set (discovered_cards (tracker_after (take 3 eight_plays)))"
    by blast
  then have "get_inferred_hand lexicographic (tracker_after (take 3 eight_plays)) =
     [''Archers'', ''Fireball'', ''Knight'']"
    by (simp add: three sorted_list_of_set_insert_remove)
  with inferred_hand_cases [OF it] it hand show ?thesis
    by (simp add: card_eight)
qed

subsection \<open>Ties in the last-played timestamp\<close>




end
